theory Spec2Isabelle
  imports Complex_Main
begin

section \<open>The game-tree schema (schemas.py)\<close>

text \<open>
  The pydantic models of \<^verbatim>\<open>schemas.py\<close>. A Python float is a \<open>real\<close> here: the
  rendering code only tests a float for truth (\<^verbatim>\<open>bool(x)\<close> is \<^verbatim>\<open>x != 0\<close>) and formats it,
  it does no arithmetic. \<^verbatim>\<open>Dict[str, float]\<close> keeps insertion order, so it is an
  association list. \<^verbatim>\<open>Action.next_node\<close> is a reference to a \<^verbatim>\<open>GameNode\<close> object: an
  address into the store of node objects, so that a reference back to an ancestor can
  be written down.
\<close>

type_synonym addr = nat

record Payoff =
  outcome_summary :: string
  utilities :: "(string \<times> real) list"

record Action =
  name :: string
  description :: string
  probability :: "real option"
  next_node :: addr

text \<open>The field \<^verbatim>\<open>id\<close> of \<^verbatim>\<open>GameNode\<close> is \<open>id_str\<close> (\<open>id\<close> is the identity function of HOL).\<close>

record GameNode =
  id_str :: string
  current_player_name :: "string option"
  is_terminal :: bool
  actions :: "Action list option"
  payoff :: "Payoff option"

text \<open>
  \<open>RecursionError\<close> is what Python raises when the nesting of calls passes the
  interpreter's limit; \<open>ValueError\<close> is the exception named in the commented-out line 56
  of \<^verbatim>\<open>schemas.py\<close>. The source raises no exception of its own.
\<close>

datatype error = RecursionError | ValueError

text \<open>
  \<^verbatim>\<open>GameNode.validate_choices\<close> (schemas.py, lines 46 to 58): the validator of the field
  \<^verbatim>\<open>actions\<close>. \<^verbatim>\<open>not v\<close> holds for \<^verbatim>\<open>None\<close> and for the empty list; the branch for fewer
  than two actions is \<^verbatim>\<open>pass\<close>.
\<close>

definition validate_choices :: "Action list option \<Rightarrow> error + Action list option" where
  "validate_choices v =
     (case v of
        None \<Rightarrow> Inr v
      | Some acts \<Rightarrow>
          if acts = [] then Inr v
          else if length acts < 2 then Inr v
          else Inr v)"

text \<open>
  Constructing a \<^verbatim>\<open>GameNode\<close>: pydantic runs the field validator on the value given for
  \<^verbatim>\<open>actions\<close> and stores what the validator returns; an exception of the validator
  makes the construction fail.
\<close>

definition GameNode_init ::
  "string \<Rightarrow> string option \<Rightarrow> bool \<Rightarrow> Action list option \<Rightarrow> Payoff option \<Rightarrow> error + GameNode" where
  "GameNode_init i player terminal acts pay =
     (case validate_choices acts of
        Inl e \<Rightarrow> Inl e
      | Inr v \<Rightarrow> Inr \<lparr>id_str = i, current_player_name = player, is_terminal = terminal,
                     actions = v, payoff = pay\<rparr>)"

section \<open>The graph under construction and the library functions\<close>

text \<open>
  A \<^verbatim>\<open>graphviz.Digraph\<close> is the sequence of the calls made on it, in order:
  \<^verbatim>\<open>dot.attr(key=value)\<close>, \<^verbatim>\<open>dot.node(name, label, **attrs)\<close> and
  \<^verbatim>\<open>dot.edge(tail, head, label=..., **attrs)\<close>.
\<close>

datatype stmt =
    Attr string string
  | Node string string "(string \<times> string) list"
  | Edge string string string "(string \<times> string) list"

text \<open>
  The state a call of \<^verbatim>\<open>draw_game_tree\<close> works on: the store of \<^verbatim>\<open>GameNode\<close> objects
  (every reference held by an \<^verbatim>\<open>Action\<close> leads to an object, so the store is total) and
  the body of the local \<^verbatim>\<open>dot\<close>.
\<close>

record state =
  heap :: "addr \<Rightarrow> GameNode"
  dot_body :: "stmt list"

text \<open>
  Two functions of the Python library are parameters of the model:
  \<^verbatim>\<open>textwrap.wrap(text, width=width)\<close> and the formatting of a float in an f-string.
\<close>

record pylib =
  textwrap_wrap :: "string \<Rightarrow> nat \<Rightarrow> string list"
  str_float :: "real \<Rightarrow> string"

definition NL :: string where
  "NL = [CHR 0x0A]"

text \<open>\<^verbatim>\<open>sep.join(xs)\<close>.\<close>

fun join :: "string \<Rightarrow> string list \<Rightarrow> string" where
  "join sep [] = []"
| "join sep [x] = x"
| "join sep (x # y # ys) = x @ sep @ join sep (y # ys)"

text \<open>\<^verbatim>\<open>str(n)\<close> for a natural number: its decimal digits.\<close>

definition digit :: "nat \<Rightarrow> char" where
  "digit d = ''0123456789'' ! d"

fun str_nat :: "nat \<Rightarrow> string" where
  "str_nat n = (if n < 10 then [digit n] else str_nat (n div 10) @ [digit (n mod 10)])"

declare str_nat.simps [simp del]

text \<open>\<^verbatim>\<open>str.lower()\<close> on ASCII text.\<close>

definition lower_char :: "char \<Rightarrow> char" where
  "lower_char c =
     (case map_of (zip ''ABCDEFGHIJKLMNOPQRSTUVWXYZ'' ''abcdefghijklmnopqrstuvwxyz'') c of
        None \<Rightarrow> c
      | Some l \<Rightarrow> l)"

definition lower :: "string \<Rightarrow> string" where
  "lower text = map lower_char text"

section \<open>The rendering traversal (app.py)\<close>

text \<open>\<^verbatim>\<open>wrap_text\<close> (app.py, lines 54 to 58).\<close>

definition wrap_text :: "pylib \<Rightarrow> string \<Rightarrow> nat \<Rightarrow> string" where
  "wrap_text L text width =
     (if text = [] then [] else join NL (textwrap_wrap L text width))"

text \<open>
  Line 79: \<^verbatim>\<open>node.current_player_name or "Unknown"\<close>; \<^verbatim>\<open>None\<close> and the empty string are
  both false.
\<close>

definition player_or_unknown :: "string option \<Rightarrow> string" where
  "player_or_unknown p =
     (case p of None \<Rightarrow> ''Unknown'' | Some s \<Rightarrow> if s = [] then ''Unknown'' else s)"

text \<open>
  Lines 95 and 96:
  \<^verbatim>\<open>node.current_player_name and node.current_player_name.lower() == 'nature'\<close>.
\<close>

definition is_nature :: "string option \<Rightarrow> bool" where
  "is_nature p =
     (case p of None \<Rightarrow> False | Some s \<Rightarrow> s \<noteq> [] \<and> lower s = ''nature'')"

text \<open>Lines 83 to 89: the label of a terminal node.\<close>

definition terminal_label :: "pylib \<Rightarrow> Payoff option \<Rightarrow> string" where
  "terminal_label L pay =
     (let outcome_text =
            (case pay of None \<Rightarrow> [] | Some p \<Rightarrow> wrap_text L (outcome_summary p) 30);
          payoff_text =
            (case pay of
               None \<Rightarrow> []
             | Some p \<Rightarrow> join NL (map (\<lambda>(k, v). k @ '': '' @ str_float L v) (utilities p)))
      in ''Outcome:'' @ NL @ outcome_text @ NL @ NL @ ''Payoffs:'' @ NL @ payoff_text)"

text \<open>
  Lines 79 to 97: the \<^verbatim>\<open>dot.node\<close> call made for a node whose identifier is \<open>node_id\<close>.
\<close>

definition node_stmt :: "pylib \<Rightarrow> GameNode \<Rightarrow> string \<Rightarrow> stmt" where
  "node_stmt L node node_id =
     (let wrapped_player = wrap_text L (player_or_unknown (current_player_name node)) 20
      in if is_terminal node then
           Node node_id (terminal_label L (payoff node))
             [(''shape'', ''box''), (''style'', ''filled''), (''fillcolor'', ''#f0f2f6''),
              (''fontname'', ''Arial''), (''fontsize'', ''10'')]
         else
           let label = wrapped_player @ NL @ ''(Moves)'';
               shape = (if is_nature (current_player_name node) then ''diamond'' else ''oval'');
               color = (if is_nature (current_player_name node) then ''lightgrey'' else ''white'')
           in Node node_id label
                [(''shape'', shape), (''style'', ''filled''), (''fillcolor'', color),
                 (''fontname'', ''Arial''), (''fontsize'', ''11'')])"

text \<open>
  Lines 99 to 102: the \<^verbatim>\<open>dot.edge\<close> call, made when \<^verbatim>\<open>parent_id\<close> is true (neither
  \<^verbatim>\<open>None\<close> nor the empty string).
\<close>

definition edge_stmts :: "pylib \<Rightarrow> string option \<Rightarrow> string \<Rightarrow> string \<Rightarrow> stmt list" where
  "edge_stmts L parent_id node_id edge_label =
     (case parent_id of
        None \<Rightarrow> []
      | Some p \<Rightarrow>
          if p = [] then []
          else [Edge p node_id (wrap_text L edge_label 15) [(''fontsize'', ''9'')]])"

text \<open>
  Lines 106 to 108: the label handed to the child's call. \<^verbatim>\<open>if action.probability:\<close> is
  false for \<^verbatim>\<open>None\<close> and for a float equal to zero.
\<close>

definition action_label :: "pylib \<Rightarrow> Action \<Rightarrow> string" where
  "action_label L action =
     (let lbl = name action
      in case probability action of
           None \<Rightarrow> lbl
         | Some p \<Rightarrow> if p = 0 then lbl else lbl @ NL @ ''(p='' @ str_float L p @ '')'')"

text \<open>The \<^verbatim>\<open>for\<close> loop of line 105: the body runs on each element in turn, an exception ends it.\<close>

fun for_each :: "('a \<Rightarrow> 's \<Rightarrow> error + 's) \<Rightarrow> 'a list \<Rightarrow> 's \<Rightarrow> error + 's" where
  "for_each f [] s = Inr s"
| "for_each f (x # xs) s =
     (case f x s of Inl e \<Rightarrow> Inl e | Inr s' \<Rightarrow> for_each f xs s')"

text \<open>
  \<^verbatim>\<open>add_nodes_edges\<close> (app.py, lines 70 to 109). The first argument after the library is
  the number of nested calls the interpreter still allows: a call made when none is
  left raises \<^verbatim>\<open>RecursionError\<close>. \<open>node\<close> is the address of the node object, which is what
  \<^verbatim>\<open>id(node)\<close> returns.
\<close>

primrec add_nodes_edges ::
  "pylib \<Rightarrow> nat \<Rightarrow> addr \<Rightarrow> string option \<Rightarrow> string \<Rightarrow> state \<Rightarrow> error + state" where
  "add_nodes_edges L 0 node parent_id edge_label s = Inl RecursionError"
| "add_nodes_edges L (Suc depth) node parent_id edge_label s =
     (let node_id = str_nat node;
          s1 = s\<lparr>dot_body := dot_body s @ [node_stmt L (heap s node) node_id]\<rparr>;
          s2 = s1\<lparr>dot_body := dot_body s1 @ edge_stmts L parent_id node_id edge_label\<rparr>
      in case actions (heap s node) of
           None \<Rightarrow> Inr s2
         | Some acts \<Rightarrow>
             if acts = [] then Inr s2
             else for_each
                    (\<lambda>action. add_nodes_edges L depth (next_node action) (Some node_id)
                                (action_label L action))
                    acts s2)"

text \<open>
  \<^verbatim>\<open>draw_game_tree\<close> (app.py, lines 60 to 113). \<open>root_node\<close> is \<open>None\<close> for Python's
  \<^verbatim>\<open>None\<close>; the result is the final state, whose \<open>dot_body\<close> is the returned graph.
\<close>

definition new_digraph :: "stmt list" where
  "new_digraph =
     [Attr ''rankdir'' ''TB'', Attr ''splines'' ''ortho'',
      Attr ''nodesep'' ''0.5'', Attr ''ranksep'' ''1.0'']"

definition draw_game_tree ::
  "pylib \<Rightarrow> nat \<Rightarrow> addr option \<Rightarrow> (addr \<Rightarrow> GameNode) \<Rightarrow> error + state" where
  "draw_game_tree L depth root_node h =
     (let s = \<lparr>heap = h, dot_body = new_digraph\<rparr>
      in case root_node of
           None \<Rightarrow> Inr s
         | Some r \<Rightarrow> add_nodes_edges L depth r None [] s)"

section \<open>Vocabulary for the properties\<close>

text \<open>
  The actions the loop of line 105 runs over (\<^verbatim>\<open>if node.actions:\<close> skips \<^verbatim>\<open>None\<close> and the
  empty list), and the nodes they lead to.
\<close>

definition actions_list :: "GameNode \<Rightarrow> Action list" where
  "actions_list node = (case actions node of None \<Rightarrow> [] | Some acts \<Rightarrow> acts)"

definition children :: "GameNode \<Rightarrow> addr list" where
  "children node = map next_node (actions_list node)"

definition child_rel :: "(addr \<Rightarrow> GameNode) \<Rightarrow> (addr \<times> addr) set" where
  "child_rel h = {(a, c). c \<in> set (children (h a))}"

text \<open>
  \<open>tree_depth_le h k a\<close>: following \<^verbatim>\<open>next_node\<close> references from the node at \<open>a\<close> ends
  everywhere after at most \<open>k\<close> nodes. The nodes reachable from \<open>a\<close> then form a finite
  structure without a reference back to an ancestor, of at most \<open>k\<close> levels.
\<close>

primrec tree_depth_le :: "(addr \<Rightarrow> GameNode) \<Rightarrow> nat \<Rightarrow> addr \<Rightarrow> bool" where
  "tree_depth_le h 0 a = False"
| "tree_depth_le h (Suc k) a = list_all (tree_depth_le h k) (children (h a))"

text \<open>
  The graph description read off a \<^verbatim>\<open>dot\<close> body: the node records (identifier, label,
  attributes) and the edges (tail, head, label), each in the order of the calls.
\<close>

fun nodes :: "stmt list \<Rightarrow> (string \<times> string \<times> (string \<times> string) list) list" where
  "nodes [] = []"
| "nodes (Node i l as # g) = (i, l, as) # nodes g"
| "nodes (Attr k v # g) = nodes g"
| "nodes (Edge t u l as # g) = nodes g"

fun edges :: "stmt list \<Rightarrow> (string \<times> string \<times> string) list" where
  "edges [] = []"
| "edges (Edge t u l as # g) = (t, u, l) # edges g"
| "edges (Attr k v # g) = edges g"
| "edges (Node i l as # g) = edges g"

text \<open>
  \<open>declared_before_use S g\<close>: reading \<open>g\<close> from the left with the identifiers \<open>S\<close>
  already emitted, both ends of every edge have their node record earlier in the body.
\<close>

fun declared_before_use :: "string set \<Rightarrow> stmt list \<Rightarrow> bool" where
  "declared_before_use S [] = True"
| "declared_before_use S (Attr k v # g) = declared_before_use S g"
| "declared_before_use S (Node i l as # g) = declared_before_use (insert i S) g"
| "declared_before_use S (Edge t u l as # g) = (t \<in> S \<and> u \<in> S \<and> declared_before_use S g)"

section \<open>The statements a call appends\<close>

text \<open>
  The statements that \<open>add_nodes_edges\<close> appends to the body when it returns, as a
  function of the store alone; \<open>add_nodes_edges_emitted\<close> below relates the two.
\<close>

primrec emitted ::
  "pylib \<Rightarrow> (addr \<Rightarrow> GameNode) \<Rightarrow> nat \<Rightarrow> addr \<Rightarrow> string option \<Rightarrow> string \<Rightarrow> stmt list" where
  "emitted L h 0 node parent_id edge_label = []"
| "emitted L h (Suc depth) node parent_id edge_label =
     node_stmt L (h node) (str_nat node) # edge_stmts L parent_id (str_nat node) edge_label @
     concat (map (\<lambda>action. emitted L h depth (next_node action) (Some (str_nat node))
                              (action_label L action))
                 (actions_list (h node)))"

text \<open>Reading a decimal numeral back, to show that \<open>str_nat\<close> is injective.\<close>

definition digit_val :: "char \<Rightarrow> nat" where
  "digit_val c =
     (case map_of (zip ''0123456789'' [0, 1, 2, 3, 4, 5, 6, 7, 8, 9]) c of
        None \<Rightarrow> 0
      | Some d \<Rightarrow> d)"

definition nat_str :: "string \<Rightarrow> nat" where
  "nat_str cs = foldl (\<lambda>acc c. 10 * acc + digit_val c) 0 cs"

section \<open>Concrete trees\<close>

text \<open>
  Values of the two library functions on the texts and floats of the trees below:
  \<^verbatim>\<open>textwrap.wrap\<close> returns a text that has single blanks only and fits the width as one
  line, a newline in it replaced by a blank; a float with an integral value is printed
  with one decimal zero (\<^verbatim>\<open>10.0\<close>, \<^verbatim>\<open>-5.0\<close>).
\<close>

definition wrap_one_line :: "string \<Rightarrow> nat \<Rightarrow> string list" where
  "wrap_one_line text width = [map (\<lambda>c. if c = CHR 0x0A then CHR '' '' else c) text]"

definition repr_whole :: "real \<Rightarrow> string" where
  "repr_whole x = (if x < 0 then ''-'' else []) @ str_nat (nat \<lfloor>\<bar>x\<bar>\<rfloor>) @ ''.0''"

definition example_lib :: pylib where
  "example_lib = \<lparr>textwrap_wrap = wrap_one_line, str_float = repr_whole\<rparr>"

text \<open>A terminal node with a payoff and no actions.\<close>

definition leaf :: "string \<Rightarrow> (string \<times> real) list \<Rightarrow> GameNode" where
  "leaf summary us =
     \<lparr>id_str = ''leaf'', current_player_name = None, is_terminal = True, actions = None,
      payoff = Some \<lparr>outcome_summary = summary, utilities = us\<rparr>\<rparr>"

text \<open>A root whose single action refers back to the root (the object at address 0).\<close>

definition loop_heap :: "addr \<Rightarrow> GameNode" where
  "loop_heap a =
     \<lparr>id_str = ''root'', current_player_name = Some ''Company A'', is_terminal = False,
      actions = Some [\<lparr>name = ''Wait'', description = [], probability = None, next_node = 0\<rparr>],
      payoff = None\<rparr>"

text \<open>A root whose child refers back to the root.\<close>

definition back_edge_heap :: "addr \<Rightarrow> GameNode" where
  "back_edge_heap a =
     (if a = 0 then
        \<lparr>id_str = ''root'', current_player_name = Some ''Company A'', is_terminal = False,
         actions = Some [\<lparr>name = ''Advance'', description = [], probability = None, next_node = 1\<rparr>],
         payoff = None\<rparr>
      else
        \<lparr>id_str = ''n1'', current_player_name = Some ''Company B'', is_terminal = False,
         actions = Some [\<lparr>name = ''Retreat'', description = [], probability = None, next_node = 0\<rparr>],
         payoff = None\<rparr>)"

text \<open>A Nature root with the probabilities 0.0 and 1.0 on its two actions.\<close>

definition zero_prob_heap :: "addr \<Rightarrow> GameNode" where
  "zero_prob_heap a =
     (if a = 0 then
        \<lparr>id_str = ''root'', current_player_name = Some ''Nature'', is_terminal = False,
         actions = Some [\<lparr>name = ''Stay'', description = [], probability = Some 0, next_node = 1\<rparr>,
                         \<lparr>name = ''Go'', description = [], probability = Some 1, next_node = 2\<rparr>],
         payoff = None\<rparr>
      else leaf ''Done'' [])"

text \<open>A Nature root with one action of probability 1.0 and one without a probability.\<close>

definition chance_heap :: "addr \<Rightarrow> GameNode" where
  "chance_heap a =
     (if a = 0 then
        \<lparr>id_str = ''root'', current_player_name = Some ''Nature'', is_terminal = False,
         actions = Some [\<lparr>name = ''Go'', description = [], probability = Some 1, next_node = 1\<rparr>,
                         \<lparr>name = ''Hold'', description = [], probability = None, next_node = 2\<rparr>],
         payoff = None\<rparr>
      else leaf ''Done'' [])"

text \<open>The one-level pricing tree of the specification's test.\<close>

definition price_heap :: "addr \<Rightarrow> GameNode" where
  "price_heap a =
     (if a = 0 then
        \<lparr>id_str = ''root'', current_player_name = Some ''Company A'', is_terminal = False,
         actions = Some [\<lparr>name = ''Raise Price'', description = [], probability = None, next_node = 1\<rparr>,
                         \<lparr>name = ''Lower Price'', description = [], probability = None, next_node = 2\<rparr>],
         payoff = None\<rparr>
      else if a = 1 then leaf ''A gains'' [(''A'', 10), (''B'', - 5)]
      else leaf ''B gains'' [(''A'', - 5), (''B'', 10)])"


text \<open>A root marked terminal that carries an action all the same.\<close>

definition terminal_actions_heap :: "addr \<Rightarrow> GameNode" where
  "terminal_actions_heap a =
     (if a = 0 then
        \<lparr>id_str = ''root'', current_player_name = Some ''Company A'', is_terminal = True,
         actions = Some [\<lparr>name = ''Go'', description = [], probability = None, next_node = 1\<rparr>],
         payoff = Some \<lparr>outcome_summary = ''Deal'', utilities = []\<rparr>\<rparr>
      else leaf ''Done'' [])"

definition box_attrs :: "(string \<times> string) list" where
  "box_attrs =
     [(''shape'', ''box''), (''style'', ''filled''), (''fillcolor'', ''#f0f2f6''),
      (''fontname'', ''Arial''), (''fontsize'', ''10'')]"

definition oval_attrs :: "(string \<times> string) list" where
  "oval_attrs =
     [(''shape'', ''oval''), (''style'', ''filled''), (''fillcolor'', ''white''),
      (''fontname'', ''Arial''), (''fontsize'', ''11'')]"

text \<open>What rendering the pricing tree appends to the body.\<close>

definition price_out :: "stmt list" where
  "price_out =
     [Node ''0'' (''Company A'' @ NL @ ''(Moves)'') oval_attrs,
      Node ''1'' (''Outcome:'' @ NL @ ''A gains'' @ NL @ NL @ ''Payoffs:'' @ NL @
                  ''A: 10.0'' @ NL @ ''B: -5.0'') box_attrs,
      Edge ''0'' ''1'' ''Raise Price'' [(''fontsize'', ''9'')],
      Node ''2'' (''Outcome:'' @ NL @ ''B gains'' @ NL @ NL @ ''Payoffs:'' @ NL @
                  ''A: -5.0'' @ NL @ ''B: 10.0'') box_attrs,
      Edge ''0'' ''2'' ''Lower Price'' [(''fontsize'', ''9'')]]"

section \<open>Decimal identifiers are injective\<close>

lemma digit_inj: "a < 10 \<Longrightarrow> b < 10 \<Longrightarrow> digit a = digit b \<Longrightarrow> a = b"
  unfolding digit_def
  by (rule nth_eq_iff_index_eq [THEN iffD1, of "''0123456789''"]) simp_all

lemma str_nat_nonempty: "str_nat n \<noteq> []"
  by (subst str_nat.simps) simp

lemma digit_val_digit: "d < 10 \<Longrightarrow> digit_val (digit d) = d"
proof -
  assume "d < 10"
  then have "d = 0 \<or> d = 1 \<or> d = 2 \<or> d = 3 \<or> d = 4 \<or> d = 5 \<or> d = 6 \<or> d = 7 \<or> d = 8 \<or> d = 9"
    by arith
  then show ?thesis
    by (elim disjE) (simp_all add: digit_def digit_val_def)
qed

lemma nat_str_str_nat: "nat_str (str_nat n) = n"
proof (induction n rule: str_nat.induct)
  case (1 n)
  show ?case
  proof (cases "n < 10")
    case True
    then show ?thesis
      by (subst str_nat.simps) (simp add: nat_str_def digit_val_digit)
  next
    case False
    with 1 have "nat_str (str_nat (n div 10)) = n div 10" by simp
    with False show ?thesis
      by (subst str_nat.simps) (simp add: nat_str_def digit_val_digit)
  qed
qed

lemma str_nat_inj: "str_nat a = str_nat b \<Longrightarrow> a = b"
  by (metis nat_str_str_nat)

section \<open>What a returning call does\<close>

lemma for_each_trace:
  assumes step: "\<And>x s s'. x \<in> set xs \<Longrightarrow> heap s = h \<Longrightarrow> f x s = Inr s' \<Longrightarrow>
                   s' = s\<lparr>dot_body := dot_body s @ g x\<rparr>"
    and run: "for_each f xs s = Inr s'"
    and h: "heap s = h"
  shows "s' = s\<lparr>dot_body := dot_body s @ concat (map g xs)\<rparr>"
  using step run h
proof (induction xs arbitrary: s)
  case Nil
  then show ?case by simp
next
  case (Cons x xs)
  from Cons.prems(2) obtain s1 where s1: "f x s = Inr s1" and rest: "for_each f xs s1 = Inr s'"
    by (auto split: sum.splits)
  from Cons.prems(1) [of x s s1] s1 Cons.prems(3)
  have e1: "s1 = s\<lparr>dot_body := dot_body s @ g x\<rparr>" by simp
  then have h1: "heap s1 = h" using Cons.prems(3) by simp
  have "s' = s1\<lparr>dot_body := dot_body s1 @ concat (map g xs)\<rparr>"
    by (rule Cons.IH [OF _ rest h1]) (rule Cons.prems(1), auto)
  with e1 show ?case by simp
qed

lemma add_nodes_edges_emitted:
  "add_nodes_edges L n a p e s = Inr s' \<Longrightarrow>
   s' = s\<lparr>dot_body := dot_body s @ emitted L (heap s) n a p e\<rparr>"
proof (induction n arbitrary: a p e s s')
  case 0
  then show ?case by simp
next
  case (Suc n)
  let ?s2 = "s\<lparr>dot_body := dot_body s @ [node_stmt L (heap s a) (str_nat a)] @ edge_stmts L p (str_nat a) e\<rparr>"
  show ?case
  proof (cases "actions_list (heap s a) = []")
    case True
    with Suc.prems show ?thesis
      by (auto simp: actions_list_def Let_def split: option.splits if_splits)
  next
    case False
    then obtain acts where acts: "actions (heap s a) = Some acts" "acts \<noteq> []"
      by (auto simp: actions_list_def split: option.splits)
    with Suc.prems have run:
      "for_each (\<lambda>action. add_nodes_edges L n (next_node action) (Some (str_nat a)) (action_label L action))
         acts ?s2 = Inr s'"
      by (simp add: Let_def)
    have "s' = ?s2\<lparr>dot_body := dot_body ?s2 @
            concat (map (\<lambda>action. emitted L (heap s) n (next_node action) (Some (str_nat a)) (action_label L action)) acts)\<rparr>"
    proof (rule for_each_trace [OF _ run, of "heap s"])
      fix x t t'
      assume "heap t = heap s"
        and "add_nodes_edges L n (next_node x) (Some (str_nat a)) (action_label L x) t = Inr t'"
      with Suc.IH [of "next_node x" "Some (str_nat a)" "action_label L x" t t']
      show "t' = t\<lparr>dot_body := dot_body t @
              emitted L (heap s) n (next_node x) (Some (str_nat a)) (action_label L x)\<rparr>"
        by simp
    qed simp
    with acts show ?thesis
      by (simp add: actions_list_def)
  qed
qed

lemma add_nodes_edges_heap:
  "add_nodes_edges L n a p e s = Inr s' \<Longrightarrow> heap s' = heap s"
  by (drule add_nodes_edges_emitted) simp

lemma for_each_error:
  assumes "\<And>x s e. x \<in> set xs \<Longrightarrow> f x s = Inl e \<Longrightarrow> e = RecursionError"
    and "for_each f xs s = Inl e"
  shows "e = RecursionError"
  using assms
proof (induction xs arbitrary: s)
  case Nil
  then show ?case by simp
next
  case (Cons x xs)
  show ?case
  proof (cases "f x s")
    case (Inl e')
    with Cons.prems(2) have "e' = e" by simp
    with Inl Cons.prems(1) [of x s e] show ?thesis by simp
  next
    case (Inr s1)
    with Cons.prems(2) have "for_each f xs s1 = Inl e" by simp
    then show ?thesis
      by (rule Cons.IH [rotated]) (rule Cons.prems(1), auto)
  qed
qed

lemma add_nodes_edges_error:
  "add_nodes_edges L n a p e s = Inl err \<Longrightarrow> err = RecursionError"
proof (induction n arbitrary: a p e s err)
  case 0
  then show ?case by simp
next
  case (Suc n)
  from Suc.prems obtain acts t where
    "for_each (\<lambda>action. add_nodes_edges L n (next_node action) (Some (str_nat a)) (action_label L action))
       acts t = Inl err"
    by (auto simp: Let_def split: option.splits if_splits)
  then show ?case
  proof (rule for_each_error [rotated])
    fix x t e'
    assume "add_nodes_edges L n (next_node x) (Some (str_nat a)) (action_label L x) t = Inl e'"
    then show "e' = RecursionError" by (rule Suc.IH)
  qed
qed

lemma for_each_total:
  assumes "\<And>x s. x \<in> set xs \<Longrightarrow> heap s = h \<Longrightarrow> \<exists>s'. f x s = Inr s' \<and> heap s' = h"
    and "heap s = h"
  shows "\<exists>s'. for_each f xs s = Inr s' \<and> heap s' = h"
  using assms
proof (induction xs arbitrary: s)
  case Nil
  then show ?case by simp
next
  case (Cons x xs)
  from Cons.prems(1) [of x s] Cons.prems(2)
  obtain s1 where s1: "f x s = Inr s1" "heap s1 = h" by auto
  have "\<exists>s'. for_each f xs s1 = Inr s' \<and> heap s' = h"
    by (rule Cons.IH [OF _ s1(2)]) (rule Cons.prems(1), auto)
  with s1 show ?case by simp
qed

lemma tree_depth_le_mono:
  "tree_depth_le h k a \<Longrightarrow> k \<le> n \<Longrightarrow> tree_depth_le h n a"
proof (induction k arbitrary: a n)
  case 0
  then show ?case by simp
next
  case (Suc k)
  then obtain m where n: "n = Suc m" "k \<le> m" by (cases n) auto
  with Suc show ?case by (auto simp: list_all_iff)
qed

lemma add_nodes_edges_total:
  "tree_depth_le (heap s) n a \<Longrightarrow> \<exists>s'. add_nodes_edges L n a p e s = Inr s' \<and> heap s' = heap s"
proof (induction n arbitrary: a p e s)
  case 0
  then show ?case by simp
next
  case (Suc n)
  let ?s2 = "s\<lparr>dot_body := dot_body s @ [node_stmt L (heap s a) (str_nat a)] @ edge_stmts L p (str_nat a) e\<rparr>"
  show ?case
  proof (cases "actions_list (heap s a) = []")
    case True
    then show ?thesis
      by (auto simp: actions_list_def Let_def split: option.splits)
  next
    case False
    then obtain acts where acts: "actions (heap s a) = Some acts" "acts \<noteq> []"
      by (auto simp: actions_list_def split: option.splits)
    have "\<exists>s'. for_each (\<lambda>action. add_nodes_edges L n (next_node action) (Some (str_nat a)) (action_label L action))
         acts ?s2 = Inr s' \<and> heap s' = heap s"
    proof (rule for_each_total)
      fix x and t :: state
      assume x: "x \<in> set acts" and t: "heap t = heap s"
      with Suc.prems acts have "tree_depth_le (heap t) n (next_node x)"
        by (simp add: children_def actions_list_def list_all_iff)
      from Suc.IH [OF this] t
      show "\<exists>s'. add_nodes_edges L n (next_node x) (Some (str_nat a)) (action_label L x) t = Inr s' \<and>
                 heap s' = heap s"
        by simp
    qed simp
    with acts show ?thesis by (simp add: Let_def)
  qed
qed

lemma for_each_steps:
  assumes "for_each f xs s = Inr s'"
    and "\<And>x s s'. f x s = Inr s' \<Longrightarrow> heap s' = heap s"
    and "x \<in> set xs"
  shows "\<exists>t t'. heap t = heap s \<and> f x t = Inr t'"
  using assms
proof (induction xs arbitrary: s)
  case Nil
  then show ?case by simp
next
  case (Cons y ys)
  from Cons.prems(1) obtain s1 where s1: "f y s = Inr s1" and rest: "for_each f ys s1 = Inr s'"
    by (auto split: sum.splits)
  from Cons.prems(2) [OF s1] have h1: "heap s1 = heap s" .
  show ?case
  proof (cases "x = y")
    case True
    with s1 show ?thesis by auto
  next
    case False
    with Cons.prems(3) have "x \<in> set ys" by simp
    from Cons.IH [OF rest Cons.prems(2) this] h1 show ?thesis by auto
  qed
qed

lemma add_nodes_edges_returns_depth:
  "add_nodes_edges L n a p e s = Inr s' \<Longrightarrow> tree_depth_le (heap s) n a"
proof (induction n arbitrary: a p e s s')
  case 0
  then show ?case by simp
next
  case (Suc n)
  show ?case
  proof (cases "actions_list (heap s a) = []")
    case True
    then show ?thesis by (simp add: children_def)
  next
    case False
    then obtain acts where acts: "actions (heap s a) = Some acts" "acts \<noteq> []"
      by (auto simp: actions_list_def split: option.splits)
    let ?f = "\<lambda>action. add_nodes_edges L n (next_node action) (Some (str_nat a)) (action_label L action)"
    from Suc.prems acts obtain s2 where run: "for_each ?f acts s2 = Inr s'" and s2: "heap s2 = heap s"
      by (auto simp: Let_def)
    have "tree_depth_le (heap s) n (next_node x)" if "x \<in> set acts" for x
    proof -
      from for_each_steps [OF run _ that, of ] obtain t t' where
        "heap t = heap s2" "?f x t = Inr t'"
        using add_nodes_edges_heap by blast
      with Suc.IH [of "next_node x" _ _ t t'] s2 show ?thesis by simp
    qed
    with acts show ?thesis
      by (simp add: children_def actions_list_def list_all_iff)
  qed
qed

section \<open>References back to an ancestor\<close>

lemma tree_depth_le_child:
  "tree_depth_le h k a \<Longrightarrow> (a, c) \<in> child_rel h \<Longrightarrow> \<exists>m. k = Suc m \<and> tree_depth_le h m c"
  by (cases k) (simp_all add: child_rel_def list_all_iff)

lemma tree_depth_le_descendant:
  "(a, d) \<in> (child_rel h)\<^sup>+ \<Longrightarrow> tree_depth_le h k a \<Longrightarrow> \<exists>m < k. tree_depth_le h m d"
proof (induction rule: trancl_induct)
  case (base c)
  from tree_depth_le_child [OF base(2) base(1)] show ?case by auto
next
  case (step c d)
  then obtain m where m: "m < k" "tree_depth_le h m c" by blast
  from tree_depth_le_child [OF m(2) step(2)] obtain m' where "m = Suc m'" "tree_depth_le h m' d"
    by blast
  with m(1) show ?case by (intro exI [of _ m']) simp
qed

lemma tree_depth_le_reachable:
  assumes "(a, d) \<in> (child_rel h)\<^sup>*" and "tree_depth_le h k a"
  shows "tree_depth_le h k d"
proof (cases "a = d")
  case True
  with assms show ?thesis by simp
next
  case False
  with assms(1) have "(a, d) \<in> (child_rel h)\<^sup>+" by (simp add: rtrancl_eq_or_trancl)
  from tree_depth_le_descendant [OF this assms(2)] obtain m where "m < k" "tree_depth_le h m d"
    by blast
  then show ?thesis by (intro tree_depth_le_mono [of h m d k]) simp_all
qed

lemma cycle_unbounded:
  "(c, c) \<in> (child_rel h)\<^sup>+ \<Longrightarrow> \<not> tree_depth_le h k c"
proof (induction k rule: less_induct)
  case (less k)
  show ?case
  proof
    assume "tree_depth_le h k c"
    from tree_depth_le_descendant [OF less.prems this]
    obtain m where "m < k" "tree_depth_le h m c" by blast
    with less.IH [OF _ less.prems] show False by blast
  qed
qed

lemma add_nodes_edges_cycle:
  assumes "(r, c) \<in> (child_rel (heap s))\<^sup>*" and "(c, c) \<in> (child_rel (heap s))\<^sup>+"
  shows "add_nodes_edges L n r p e s = Inl RecursionError"
proof (cases "add_nodes_edges L n r p e s")
  case (Inl err)
  then show ?thesis by (simp add: add_nodes_edges_error)
next
  case (Inr s')
  then have "tree_depth_le (heap s) n r" by (rule add_nodes_edges_returns_depth)
  with assms(1) have "tree_depth_le (heap s) n c" by (rule tree_depth_le_reachable)
  with cycle_unbounded [OF assms(2)] show ?thesis by simp
qed

section \<open>Properties of the appended statements\<close>

lemma nodes_append: "nodes (xs @ ys) = nodes xs @ nodes ys"
  by (induction xs rule: nodes.induct) simp_all

lemma edges_append: "edges (xs @ ys) = edges xs @ edges ys"
  by (induction xs rule: edges.induct) simp_all

lemma edges_concat: "edges (concat xss) = concat (map edges xss)"
  by (induction xss) (simp_all add: edges_append)

lemma edges_edge_stmts:
  "edges (edge_stmts L p i e) =
     (case p of None \<Rightarrow> [] | Some t \<Rightarrow> if t = [] then [] else [(t, i, wrap_text L e 15)])"
  by (simp add: edge_stmts_def split: option.splits)

lemma nodes_edge_stmts: "nodes (edge_stmts L p i e) = []"
  by (simp add: edge_stmts_def split: option.splits)

lemma node_stmt_id: "\<exists>l as. node_stmt L n i = Node i l as"
  by (simp add: node_stmt_def Let_def)

lemma edges_emitted_Suc:
  "edges (emitted L h (Suc m) c p e) =
     edges (edge_stmts L p (str_nat c) e) @
     concat (map (\<lambda>ac. edges (emitted L h m (next_node ac) (Some (str_nat c)) (action_label L ac)))
                 (actions_list (h c)))"
proof -
  obtain l as where "node_stmt L (h c) (str_nat c) = Node (str_nat c) l as"
    using node_stmt_id by blast
  then show ?thesis
    by (simp add: edges_append edges_concat comp_def)
qed

lemma emitted_tails:
  "(t, u, l) \<in> set (edges (emitted L h n a p e)) \<Longrightarrow>
   p = Some t \<or> (\<exists>d. (a, d) \<in> (child_rel h)\<^sup>* \<and> t = str_nat d \<and> children (h d) \<noteq> [])"
proof (induction n arbitrary: a p e)
  case 0
  then show ?case by simp
next
  case (Suc n)
  from Suc.prems consider
    (own) "(t, u, l) \<in> set (edges (edge_stmts L p (str_nat a) e))"
  | (sub) ac where "ac \<in> set (actions_list (h a))"
      "(t, u, l) \<in> set (edges (emitted L h n (next_node ac) (Some (str_nat a)) (action_label L ac)))"
    unfolding edges_emitted_Suc by auto
  then show ?case
  proof cases
    case own
    then show ?thesis
      by (auto simp: edges_edge_stmts split: option.splits if_splits)
  next
    case sub
    from sub(1) have ch: "(a, next_node ac) \<in> child_rel h" and ne: "children (h a) \<noteq> []"
      by (auto simp: child_rel_def children_def)
    from Suc.IH [OF sub(2)] show ?thesis
    proof
      assume "Some (str_nat a) = Some t"
      with ne show ?thesis by auto
    next
      assume "\<exists>d. (next_node ac, d) \<in> (child_rel h)\<^sup>* \<and> t = str_nat d \<and> children (h d) \<noteq> []"
      then obtain d where "(next_node ac, d) \<in> (child_rel h)\<^sup>*" "t = str_nat d" "children (h d) \<noteq> []"
        by blast
      with ch have "(a, d) \<in> (child_rel h)\<^sup>*" by (meson converse_rtrancl_into_rtrancl)
      with \<open>t = str_nat d\<close> \<open>children (h d) \<noteq> []\<close> show ?thesis by blast
    qed
  qed
qed


lemma declared_before_use_append:
  "declared_before_use S (xs @ ys) =
     (declared_before_use S xs \<and> declared_before_use (S \<union> fst ` set (nodes xs)) ys)"
  by (induction S xs rule: declared_before_use.induct) simp_all

lemma declared_before_use_mono:
  "declared_before_use S g \<Longrightarrow> S \<subseteq> T \<Longrightarrow> declared_before_use T g"
proof (induction S g arbitrary: T rule: declared_before_use.induct)
  case (3 S i l as g)
  from 3(3) have "insert i S \<subseteq> insert i T" by (rule insert_mono)
  with 3(1) [of "insert i T"] 3(2) show ?case by simp
qed auto

lemma declared_before_use_concat:
  "(\<And>xs T. xs \<in> set xss \<Longrightarrow> S \<subseteq> T \<Longrightarrow> declared_before_use T xs) \<Longrightarrow>
   declared_before_use S (concat xss)"
proof (induction xss arbitrary: S)
  case Nil
  then show ?case by simp
next
  case (Cons xs xss)
  have "declared_before_use S xs" by (rule Cons.prems) simp_all
  moreover have "declared_before_use (S \<union> fst ` set (nodes xs)) (concat xss)"
  proof (rule Cons.IH)
    fix ys T
    assume "ys \<in> set xss" and "S \<union> fst ` set (nodes xs) \<subseteq> T"
    then show "declared_before_use T ys" by (intro Cons.prems) auto
  qed
  ultimately show ?case by (simp add: declared_before_use_append)
qed

lemma declared_before_use_edges:
  "declared_before_use S g \<Longrightarrow> (t, u, l) \<in> set (edges g) \<Longrightarrow>
   t \<in> S \<union> fst ` set (nodes g) \<and> u \<in> S \<union> fst ` set (nodes g)"
proof (induction S g rule: declared_before_use.induct)
  case (3 S i l' as g)
  then show ?case by auto
qed auto

lemma emitted_declared:
  "(\<And>t. p = Some t \<Longrightarrow> t \<noteq> [] \<Longrightarrow> t \<in> S) \<Longrightarrow> declared_before_use S (emitted L h n a p e)"
proof (induction n arbitrary: a p e S)
  case 0
  then show ?case by simp
next
  case (Suc n)
  obtain l as where nd: "node_stmt L (h a) (str_nat a) = Node (str_nat a) l as"
    using node_stmt_id by blast
  have own: "declared_before_use (insert (str_nat a) S) (edge_stmts L p (str_nat a) e)"
    using Suc.prems by (auto simp: edge_stmts_def split: option.splits)
  have sub: "declared_before_use (insert (str_nat a) S)
       (concat (map (\<lambda>ac. emitted L h n (next_node ac) (Some (str_nat a)) (action_label L ac))
                    (actions_list (h a))))"
  proof (rule declared_before_use_concat)
    fix xs T
    assume "xs \<in> set (map (\<lambda>ac. emitted L h n (next_node ac) (Some (str_nat a)) (action_label L ac))
                          (actions_list (h a)))"
      and T: "insert (str_nat a) S \<subseteq> T"
    then obtain ac where xs: "xs = emitted L h n (next_node ac) (Some (str_nat a)) (action_label L ac)"
      by auto
    show "declared_before_use T xs"
      unfolding xs by (rule Suc.IH) (use T in auto)
  qed
  from own sub show ?case
    by (simp add: nd declared_before_use_append nodes_edge_stmts)
qed

lemma draw_game_tree_tree:
  assumes "tree_depth_le h k r" and "k \<le> n"
  shows "draw_game_tree L n (Some r) h =
           Inr \<lparr>heap = h, dot_body = new_digraph @ emitted L h n r None []\<rparr>"
proof -
  let ?s = "\<lparr>heap = h, dot_body = new_digraph\<rparr>"
  from assms have "tree_depth_le (heap ?s) n r" by (simp add: tree_depth_le_mono)
  from add_nodes_edges_total [OF this, of L None "[]"]
  obtain s' where s': "add_nodes_edges L n r None [] ?s = Inr s'" by blast
  from add_nodes_edges_emitted [OF s'] s' show ?thesis
    by (simp add: draw_game_tree_def)
qed

lemma draw_game_tree_returns:
  assumes "draw_game_tree L n (Some r) h = Inr s'"
  shows "s' = \<lparr>heap = h, dot_body = new_digraph @ emitted L h n r None []\<rparr> \<and> tree_depth_le h n r"
proof -
  let ?s = "\<lparr>heap = h, dot_body = new_digraph\<rparr>"
  from assms have run: "add_nodes_edges L n r None [] ?s = Inr s'"
    by (simp add: draw_game_tree_def)
  from add_nodes_edges_emitted [OF run] add_nodes_edges_returns_depth [OF run]
  show ?thesis by simp
qed

section \<open>Evaluating concrete trees\<close>

lemma str_nat_digit: "n < 10 \<Longrightarrow> str_nat n = [digit n]"
  by (subst str_nat.simps) simp

lemma emitted_depth:
  "tree_depth_le h k a \<Longrightarrow> k \<le> n \<Longrightarrow> emitted L h n a p e = emitted L h k a p e"
proof (induction k arbitrary: n a p e)
  case 0
  then show ?case by simp
next
  case (Suc k)
  then obtain m where n: "n = Suc m" "k \<le> m" by (cases n) auto
  have "emitted L h m (next_node ac) q l = emitted L h k (next_node ac) q l"
    if "ac \<in> set (actions_list (h a))" for ac q l
    using Suc.prems(1) that n(2) by (intro Suc.IH) (simp_all add: children_def list_all_iff)
  then show ?case by (simp add: n(1) cong: map_cong)
qed

lemma draw_game_tree_depth:
  assumes "tree_depth_le h k r" and "k \<le> n"
  shows "draw_game_tree L n (Some r) h =
           Inr \<lparr>heap = h, dot_body = new_digraph @ emitted L h k r None []\<rparr>"
  using draw_game_tree_tree [OF assms] emitted_depth [OF assms] by simp

lemma zero_prob_depth: "tree_depth_le zero_prob_heap 2 0"
  by (simp add: numeral_2_eq_2 zero_prob_heap_def children_def actions_list_def leaf_def)

lemma zero_prob_emitted:
  "emitted example_lib zero_prob_heap 2 0 None [] =
     [Node ''0'' (''Nature'' @ NL @ ''(Moves)'')
        [(''shape'', ''diamond''), (''style'', ''filled''), (''fillcolor'', ''lightgrey''),
         (''fontname'', ''Arial''), (''fontsize'', ''11'')],
      Node ''1'' (''Outcome:'' @ NL @ ''Done'' @ NL @ NL @ ''Payoffs:'' @ NL)
        [(''shape'', ''box''), (''style'', ''filled''), (''fillcolor'', ''#f0f2f6''),
         (''fontname'', ''Arial''), (''fontsize'', ''10'')],
      Edge ''0'' ''1'' ''Stay'' [(''fontsize'', ''9'')],
      Node ''2'' (''Outcome:'' @ NL @ ''Done'' @ NL @ NL @ ''Payoffs:'' @ NL)
        [(''shape'', ''box''), (''style'', ''filled''), (''fillcolor'', ''#f0f2f6''),
         (''fontname'', ''Arial''), (''fontsize'', ''10'')],
      Edge ''0'' ''2'' ''Go (p=1.0)'' [(''fontsize'', ''9'')]]"
  by (simp add: numeral_2_eq_2 zero_prob_heap_def actions_list_def leaf_def
      node_stmt_def edge_stmts_def action_label_def terminal_label_def wrap_text_def
      player_or_unknown_def is_nature_def lower_def lower_char_def example_lib_def
      wrap_one_line_def repr_whole_def str_nat_digit digit_def NL_def)

lemma str_nat_step: "10 \<le> n \<Longrightarrow> str_nat n = str_nat (n div 10) @ [digit (n mod 10)]"
  by (subst str_nat.simps) simp

lemmas render_eval = str_nat_step
  actions_list_def children_def leaf_def node_stmt_def edge_stmts_def action_label_def
  terminal_label_def wrap_text_def player_or_unknown_def is_nature_def lower_def lower_char_def
  example_lib_def wrap_one_line_def repr_whole_def str_nat_digit digit_def NL_def
  box_attrs_def oval_attrs_def new_digraph_def

lemma Suc2: "emitted L h 2 a p e = emitted L h (Suc (Suc 0)) a p e"
  by (simp only: numeral_2_eq_2)

lemma depth2: "tree_depth_le h 2 a = tree_depth_le h (Suc (Suc 0)) a"
  by (simp only: numeral_2_eq_2)

lemma price_depth: "tree_depth_le price_heap 2 0"
  by (simp add: depth2 price_heap_def render_eval)

lemma price_emitted: "emitted example_lib price_heap 2 0 None [] = price_out"
  by (simp add: Suc2 price_heap_def price_out_def render_eval)

lemma price_draw:
  "draw_game_tree example_lib 1000 (Some 0) price_heap =
     Inr \<lparr>heap = price_heap, dot_body = new_digraph @ price_out\<rparr>"
  using draw_game_tree_depth [OF price_depth, of 1000 example_lib] price_emitted by simp

section \<open>The edges leaving a node\<close>

lemma descendant_not_self:
  "tree_depth_le h k a \<Longrightarrow> (a, d) \<in> (child_rel h)\<^sup>+ \<Longrightarrow> d \<noteq> a"
  using cycle_unbounded by blast

lemma emitted_child_edges:
  assumes a: "tree_depth_le h (Suc m) a" and ac: "ac \<in> set (actions_list (h a))"
  shows "filter (\<lambda>(t, u, l). t = str_nat a)
           (edges (emitted L h m (next_node ac) (Some (str_nat a)) lbl)) =
         [(str_nat a, str_nat (next_node ac), wrap_text L lbl 15)]"
proof -
  let ?c = "next_node ac"
  from ac have ch: "(a, ?c) \<in> child_rel h" by (auto simp: child_rel_def children_def)
  from a ac have "tree_depth_le h m ?c" by (simp add: children_def list_all_iff)
  then obtain m' where m: "m = Suc m'" by (cases m) auto
  have rest: "t \<noteq> str_nat a"
    if gc: "gc \<in> set (actions_list (h ?c))"
      and t: "(t, u, l) \<in> set (edges (emitted L h m' (next_node gc) (Some (str_nat ?c)) (action_label L gc)))"
    for gc t u l
  proof -
    from gc have gch: "(?c, next_node gc) \<in> child_rel h" by (auto simp: child_rel_def children_def)
    from emitted_tails [OF t] obtain d where d: "(a, d) \<in> (child_rel h)\<^sup>+" "t = str_nat d"
    proof
      assume "Some (str_nat ?c) = Some t"
      with ch that show ?thesis by auto
    next
      assume "\<exists>d. (next_node gc, d) \<in> (child_rel h)\<^sup>* \<and> t = str_nat d \<and> children (h d) \<noteq> []"
      then obtain d where d: "(next_node gc, d) \<in> (child_rel h)\<^sup>*" "t = str_nat d" by blast
      from ch gch have "(a, next_node gc) \<in> (child_rel h)\<^sup>+" by auto
      from trancl_rtrancl_trancl [OF this d(1)] d(2) show ?thesis by (rule that)
    qed
    from descendant_not_self [OF a d(1)] d(2) show ?thesis
      by (auto dest: str_nat_inj)
  qed
  have "filter (\<lambda>(t, u, l). t = str_nat a)
          (concat (map (\<lambda>gc. edges (emitted L h m' (next_node gc) (Some (str_nat ?c)) (action_label L gc)))
                       (actions_list (h ?c)))) = []"
    using rest by (auto simp: filter_empty_conv)
  then show ?thesis
    by (simp add: m edges_emitted_Suc edges_edge_stmts str_nat_nonempty del: emitted.simps)
qed

lemma emitted_own_edges:
  assumes a: "tree_depth_le h n a" and p: "p \<noteq> Some (str_nat a)"
  shows "filter (\<lambda>(t, u, l). t = str_nat a) (edges (emitted L h n a p e)) =
         map (\<lambda>ac. (str_nat a, str_nat (next_node ac), wrap_text L (action_label L ac) 15))
             (actions_list (h a))"
proof -
  from a obtain m where n: "n = Suc m" by (cases n) auto
  have own: "filter (\<lambda>(t, u, l). t = str_nat a) (edges (edge_stmts L p (str_nat a) e)) = []"
    using p by (auto simp: edges_edge_stmts split: option.splits)
  have sub: "map (\<lambda>ac. filter (\<lambda>(t, u, l). t = str_nat a)
                     (edges (emitted L h m (next_node ac) (Some (str_nat a)) (action_label L ac))))
                 (actions_list (h a)) =
             map (\<lambda>ac. [(str_nat a, str_nat (next_node ac), wrap_text L (action_label L ac) 15)])
                 (actions_list (h a))"
    using a by (intro map_cong refl emitted_child_edges) (simp_all add: n)
  have "filter (\<lambda>(t, u, l). t = str_nat a) (edges (emitted L h n a p e)) =
        concat (map (\<lambda>ac. filter (\<lambda>(t, u, l). t = str_nat a)
                     (edges (emitted L h m (next_node ac) (Some (str_nat a)) (action_label L ac))))
                 (actions_list (h a)))"
    by (simp add: n edges_emitted_Suc own filter_concat comp_def del: emitted.simps)
  also have "\<dots> = map (\<lambda>ac. (str_nat a, str_nat (next_node ac), wrap_text L (action_label L ac) 15))
                     (actions_list (h a))"
    unfolding sub by (induction "actions_list (h a)") simp_all
  finally show ?thesis .
qed

section \<open>The claims\<close>

lemma back_edge_depth_facts:
  "(0, 1) \<in> (child_rel back_edge_heap)\<^sup>*" "(1, 1) \<in> (child_rel back_edge_heap)\<^sup>+"
proof -
  have a: "(0, 1) \<in> child_rel back_edge_heap" and b: "(1, 0) \<in> child_rel back_edge_heap"
    by (simp_all add: child_rel_def back_edge_heap_def render_eval)
  from a show "(0, 1) \<in> (child_rel back_edge_heap)\<^sup>*" by (rule r_into_rtrancl)
  from b a show "(1, 1) \<in> (child_rel back_edge_heap)\<^sup>+" by (rule trancl_into_trancl2 [OF _ r_into_trancl])
qed

lemma loop_heap_cycle: "(0, 0) \<in> (child_rel loop_heap)\<^sup>+"
  by (rule r_into_trancl) (simp add: child_rel_def loop_heap_def render_eval)

lemma draw_game_tree_cycle:
  assumes "(r, c) \<in> (child_rel h)\<^sup>*" and "(c, c) \<in> (child_rel h)\<^sup>+"
  shows "draw_game_tree L n (Some r) h = Inl RecursionError"
  unfolding draw_game_tree_def using assms by (simp add: add_nodes_edges_cycle)

text \<open>
  Claim C1, as amended. The traversal has no cycle detection and the source has no
  \<^verbatim>\<open>MalformedReference\<close> error. When following \<^verbatim>\<open>next_node\<close> from the root reaches a node
  \<open>c\<close> that leads back to itself (an action of the root that refers to the root is the
  case \<open>c = r\<close>), \<open>draw_game_tree\<close> returns no graph: whatever number \<open>n\<close> of nested
  calls the interpreter allows, the recursion uses them all and the call fails with
  \<open>RecursionError\<close>.
\<close>
theorem cyclic_reference_recursion_error:
  assumes "(r, c) \<in> (child_rel h)\<^sup>*" and "(c, c) \<in> (child_rel h)\<^sup>+"
  shows "draw_game_tree L n (Some r) h = Inl RecursionError"
  using assms by (rule draw_game_tree_cycle)

theorem cyclic_reference_recursion_error_witness:
  "(0, 1) \<in> (child_rel back_edge_heap)\<^sup>* \<and> (1, 1) \<in> (child_rel back_edge_heap)\<^sup>+ \<and>
   draw_game_tree example_lib 1000 (Some 0) back_edge_heap = Inl RecursionError"
  using cyclic_reference_recursion_error [OF back_edge_depth_facts, of example_lib 1000]
    back_edge_depth_facts by simp

theorem self_reference_counterexample:
  "draw_game_tree example_lib 1000 (Some 0) loop_heap = Inl RecursionError"
  by (rule draw_game_tree_cycle [OF rtrancl.rtrancl_refl loop_heap_cycle])

text \<open>
  Claim C2, as amended. Called with \<^verbatim>\<open>None\<close> as root, \<open>draw_game_tree\<close> raises nothing: it
  returns the graph that holds the four graph attributes only, with no node and no edge.
\<close>
theorem draw_game_tree_no_root:
  "draw_game_tree L n None h = Inr \<lparr>heap = h, dot_body = new_digraph\<rparr> \<and>
   nodes new_digraph = [] \<and> edges new_digraph = []"
  by (simp add: draw_game_tree_def new_digraph_def)

theorem no_root_counterexample:
  "draw_game_tree example_lib 1000 None price_heap =
     Inr \<lparr>heap = price_heap,
          dot_body = [Attr ''rankdir'' ''TB'', Attr ''splines'' ''ortho'',
                      Attr ''nodesep'' ''0.5'', Attr ''ranksep'' ''1.0'']\<rparr>"
  by (simp add: draw_game_tree_def new_digraph_def)

text \<open>
  The edges a call of \<open>add_nodes_edges\<close> emits for its own node \<open>a\<close>, when the nodes
  below \<open>a\<close> fit the nested calls allowed: the call returns, and the edges leaving \<open>a\<close>
  that it has appended are one per action of \<open>a\<close>, in the order of the action sequence,
  from the identifier of \<open>a\<close> to the identifier of the action's \<^verbatim>\<open>next_node\<close>, labelled with
  \<open>wrap_text\<close> at width 15 of the label that lines 106 to 108 compute for the action.
  (\<open>parent_id\<close> is the identifier of another node, or absent.)
\<close>

lemma edges_follow_actions:
  assumes "tree_depth_le (heap s) n a" and "p \<noteq> Some (str_nat a)"
  shows "\<exists>s'. add_nodes_edges L n a p e s = Inr s' \<and>
           filter (\<lambda>(t, u, l). t = str_nat a)
             (edges (drop (length (dot_body s)) (dot_body s'))) =
           map (\<lambda>ac. (str_nat a, str_nat (next_node ac), wrap_text L (action_label L ac) 15))
               (actions_list (heap s a))"
proof -
  from add_nodes_edges_total [OF assms(1), of L p e]
  obtain s' where run: "add_nodes_edges L n a p e s = Inr s'" by blast
  from add_nodes_edges_emitted [OF run]
  have out: "drop (length (dot_body s)) (dot_body s') = emitted L (heap s) n a p e" by simp
  from run show ?thesis
    by (simp add: out emitted_own_edges [OF assms])
qed

lemma chance_depth: "tree_depth_le chance_heap 2 0"
  by (simp add: depth2 chance_heap_def render_eval)

text \<open>
  Claim C3 asks for the suffix \<^verbatim>\<open>(p=<value>)\<close> on the edge of every action that carries a
  probability, the value 0.0 included. Line 107 tests \<^verbatim>\<open>if action.probability:\<close>, which is
  false for 0.0. For the Nature root with the actions "Stay" of probability 0.0 and "Go"
  of probability 1.0, each leading to a terminal node, \<open>draw_game_tree\<close> labels the edge
  of "Stay" with the name alone, while the edge of "Go" carries the suffix.
\<close>
theorem zero_probability_no_suffix:
  "draw_game_tree example_lib 1000 (Some 0) zero_prob_heap =
     Inr \<lparr>heap = zero_prob_heap,
          dot_body =
            [Attr ''rankdir'' ''TB'', Attr ''splines'' ''ortho'',
             Attr ''nodesep'' ''0.5'', Attr ''ranksep'' ''1.0'',
             Node ''0'' (''Nature'' @ NL @ ''(Moves)'')
               [(''shape'', ''diamond''), (''style'', ''filled''), (''fillcolor'', ''lightgrey''),
                (''fontname'', ''Arial''), (''fontsize'', ''11'')],
             Node ''1'' (''Outcome:'' @ NL @ ''Done'' @ NL @ NL @ ''Payoffs:'' @ NL)
               [(''shape'', ''box''), (''style'', ''filled''), (''fillcolor'', ''#f0f2f6''),
                (''fontname'', ''Arial''), (''fontsize'', ''10'')],
             Edge ''0'' ''1'' ''Stay'' [(''fontsize'', ''9'')],
             Node ''2'' (''Outcome:'' @ NL @ ''Done'' @ NL @ NL @ ''Payoffs:'' @ NL)
               [(''shape'', ''box''), (''style'', ''filled''), (''fillcolor'', ''#f0f2f6''),
                (''fontname'', ''Arial''), (''fontsize'', ''10'')],
             Edge ''0'' ''2'' ''Go (p=1.0)'' [(''fontsize'', ''9'')]]\<rparr>"
  using draw_game_tree_depth [OF zero_prob_depth, of 1000 example_lib] zero_prob_emitted
  by (simp add: new_digraph_def)

text \<open>
  Claim C4, as amended. In the graph description that \<open>draw_game_tree\<close> returns, no
  edge leaves a node whose action sequence is absent or empty, whether the node is marked
  terminal or not; and the call of \<open>add_nodes_edges\<close> on such a node returns at once,
  having appended the node's record and the edge from its parent only. The
  \<^verbatim>\<open>is_terminal\<close> flag plays no part in it.
\<close>
theorem no_edge_from_childless_node:
  assumes "draw_game_tree L n root_node h = Inr s'"
    and "actions (h a) = None \<or> actions (h a) = Some []"
  shows "str_nat a \<notin> fst ` set (edges (dot_body s')) \<and>
         (\<forall>m p e s. heap s = h \<longrightarrow>
            add_nodes_edges L (Suc m) a p e s =
              Inr (s\<lparr>dot_body := dot_body s @ node_stmt L (h a) (str_nat a) #
                                   edge_stmts L p (str_nat a) e\<rparr>))"
proof
  from assms(2) have none: "children (h a) = []"
    by (auto simp: children_def actions_list_def)
  show "str_nat a \<notin> fst ` set (edges (dot_body s'))"
  proof (cases root_node)
    case None
    with assms(1) show ?thesis by (auto simp: draw_game_tree_def new_digraph_def)
  next
    case (Some r)
    with assms(1) have body: "dot_body s' = new_digraph @ emitted L h n r None []"
      using draw_game_tree_returns by fastforce
    have "t \<noteq> str_nat a" if "(t, u, l) \<in> set (edges (emitted L h n r None []))" for t u l
    proof
      assume "t = str_nat a"
      with emitted_tails [OF that] obtain d where "str_nat a = str_nat d" "children (h d) \<noteq> []"
        by auto
      with none show False by (auto dest: str_nat_inj)
    qed
    then show ?thesis by (force simp: body edges_append new_digraph_def)
  qed
  from assms(2) show "\<forall>m p e s. heap s = h \<longrightarrow>
            add_nodes_edges L (Suc m) a p e s =
              Inr (s\<lparr>dot_body := dot_body s @ node_stmt L (h a) (str_nat a) #
                                   edge_stmts L p (str_nat a) e\<rparr>)"
    by (auto simp: Let_def)
qed

theorem no_edge_from_childless_node_witness:
  "draw_game_tree example_lib 1000 (Some 0) price_heap =
     Inr \<lparr>heap = price_heap, dot_body = new_digraph @ price_out\<rparr> \<and>
   (actions (price_heap 1) = None \<or> actions (price_heap 1) = Some []) \<and>
   ''1'' \<notin> fst ` set (edges (new_digraph @ price_out)) \<and>
   add_nodes_edges example_lib (Suc 0) 1 None [] \<lparr>heap = price_heap, dot_body = []\<rparr> =
     Inr \<lparr>heap = price_heap,
          dot_body = [Node ''1'' (''Outcome:'' @ NL @ ''A gains'' @ NL @ NL @ ''Payoffs:'' @ NL @
                                  ''A: 10.0'' @ NL @ ''B: -5.0'') box_attrs]\<rparr>"
proof -
  have leaf: "actions (price_heap 1) = None \<or> actions (price_heap 1) = Some []"
    by (simp add: price_heap_def leaf_def)
  from no_edge_from_childless_node [OF price_draw leaf] price_draw leaf show ?thesis
    by (simp add: price_heap_def price_out_def render_eval)
qed

lemma terminal_actions_depth: "tree_depth_le terminal_actions_heap 2 0"
  by (simp add: depth2 terminal_actions_heap_def render_eval)

theorem terminal_with_actions_counterexample:
  "is_terminal (terminal_actions_heap 0) \<and>
   draw_game_tree example_lib 1000 (Some 0) terminal_actions_heap =
     Inr \<lparr>heap = terminal_actions_heap,
          dot_body =
            [Attr ''rankdir'' ''TB'', Attr ''splines'' ''ortho'',
             Attr ''nodesep'' ''0.5'', Attr ''ranksep'' ''1.0'',
             Node ''0'' (''Outcome:'' @ NL @ ''Deal'' @ NL @ NL @ ''Payoffs:'' @ NL)
               [(''shape'', ''box''), (''style'', ''filled''), (''fillcolor'', ''#f0f2f6''),
                (''fontname'', ''Arial''), (''fontsize'', ''10'')],
             Node ''1'' (''Outcome:'' @ NL @ ''Done'' @ NL @ NL @ ''Payoffs:'' @ NL)
               [(''shape'', ''box''), (''style'', ''filled''), (''fillcolor'', ''#f0f2f6''),
                (''fontname'', ''Arial''), (''fontsize'', ''10'')],
             Edge ''0'' ''1'' ''Go'' [(''fontsize'', ''9'')]]\<rparr>"
proof -
  have "emitted example_lib terminal_actions_heap 2 0 None [] =
          [Node ''0'' (''Outcome:'' @ NL @ ''Deal'' @ NL @ NL @ ''Payoffs:'' @ NL) box_attrs,
           Node ''1'' (''Outcome:'' @ NL @ ''Done'' @ NL @ NL @ ''Payoffs:'' @ NL) box_attrs,
           Edge ''0'' ''1'' ''Go'' [(''fontsize'', ''9'')]]"
    by (simp add: Suc2 terminal_actions_heap_def render_eval)
  with draw_game_tree_depth [OF terminal_actions_depth, of 1000 example_lib] show ?thesis
    by (simp add: new_digraph_def box_attrs_def terminal_actions_heap_def)
qed

text \<open>
  Claim C5. For the one-level tree with root player "Company A" and the two actions
  "Raise Price" and "Lower Price", each without a probability and leading to a terminal
  node with the payoffs of the specification, \<open>draw_game_tree\<close> returns, as soon as two
  nested calls are allowed, a graph with exactly 3 nodes and 2 edges, the edges going from
  the root to the two children with the labels "Raise Price" and "Lower Price".
  \<^verbatim>\<open>textwrap.wrap\<close> is taken to return each of the two names, which fit 15 columns, as one
  line.
\<close>
theorem render_price_tree:
  assumes root: "current_player_name (h r) = Some ''Company A''" "\<not> is_terminal (h r)"
      "actions (h r) = Some [a1, a2]"
    and a1: "name a1 = ''Raise Price''" "probability a1 = None" "next_node a1 = c1"
    and a2: "name a2 = ''Lower Price''" "probability a2 = None" "next_node a2 = c2"
    and c1: "is_terminal (h c1)" "actions (h c1) = None"
      "payoff (h c1) = Some \<lparr>outcome_summary = o1, utilities = [(''A'', 10), (''B'', - 5)]\<rparr>"
    and c2: "is_terminal (h c2)" "actions (h c2) = None"
      "payoff (h c2) = Some \<lparr>outcome_summary = o2, utilities = [(''A'', - 5), (''B'', 10)]\<rparr>"
    and wrap: "textwrap_wrap L ''Raise Price'' 15 = [''Raise Price'']"
      "textwrap_wrap L ''Lower Price'' 15 = [''Lower Price'']"
    and depth: "2 \<le> n"
  shows "\<exists>s'. draw_game_tree L n (Some r) h = Inr s' \<and>
           length (nodes (dot_body s')) = 3 \<and>
           edges (dot_body s') =
             [(str_nat r, str_nat c1, ''Raise Price''), (str_nat r, str_nat c2, ''Lower Price'')]"
proof -
  have d: "tree_depth_le h 2 r"
    using root a1 a2 c1 c2 by (simp add: depth2 children_def actions_list_def)
  obtain l0 as0 l1 as1 l2 as2 where nd:
    "node_stmt L (h r) (str_nat r) = Node (str_nat r) l0 as0"
    "node_stmt L (h c1) (str_nat c1) = Node (str_nat c1) l1 as1"
    "node_stmt L (h c2) (str_nat c2) = Node (str_nat c2) l2 as2"
    using node_stmt_id by meson
  have "emitted L h 2 r None [] =
          [Node (str_nat r) l0 as0,
           Node (str_nat c1) l1 as1, Edge (str_nat r) (str_nat c1) ''Raise Price'' [(''fontsize'', ''9'')],
           Node (str_nat c2) l2 as2, Edge (str_nat r) (str_nat c2) ''Lower Price'' [(''fontsize'', ''9'')]]"
    using root a1 a2 c1 c2 wrap
    by (simp add: Suc2 nd actions_list_def edge_stmts_def action_label_def wrap_text_def
        str_nat_nonempty)
  with draw_game_tree_depth [OF d depth, of L] show ?thesis
    by (simp add: new_digraph_def)
qed

theorem render_price_tree_witness:
  "textwrap_wrap example_lib ''Raise Price'' 15 = [''Raise Price''] \<and>
   textwrap_wrap example_lib ''Lower Price'' 15 = [''Lower Price''] \<and>
   (\<exists>s'. draw_game_tree example_lib 1000 (Some 0) price_heap = Inr s' \<and>
      length (nodes (dot_body s')) = 3 \<and>
      edges (dot_body s') = [(''0'', ''1'', ''Raise Price''), (''0'', ''2'', ''Lower Price'')])"
  using render_price_tree [of price_heap 0
      "\<lparr>name = ''Raise Price'', description = [], probability = None, next_node = 1\<rparr>"
      "\<lparr>name = ''Lower Price'', description = [], probability = None, next_node = 2\<rparr>"
      1 2 "''A gains''" "''B gains''" example_lib 1000]
  by (simp add: price_heap_def render_eval)




text \<open>
  Claim C7. When \<open>draw_game_tree\<close> has returned a graph for a tree, a second call on the
  same tree, run on the store as the first call left it, returns a graph with the same
  body: the same node records (identifier, label, shape and style attributes) and the same
  edges (tail, head, label), so the identity on identifiers is an isomorphism between the
  two.
\<close>
theorem render_twice_same_description:
  assumes "draw_game_tree L n root_node h = Inr s1"
  shows "\<exists>s2. draw_game_tree L n root_node (heap s1) = Inr s2 \<and>
           dot_body s2 = dot_body s1 \<and>
           nodes (dot_body s2) = nodes (dot_body s1) \<and>
           edges (dot_body s2) = edges (dot_body s1)"
proof -
  have "heap s1 = h"
  proof (cases root_node)
    case None
    with assms show ?thesis by (auto simp: draw_game_tree_def)
  next
    case (Some r)
    with assms show ?thesis using draw_game_tree_returns by fastforce
  qed
  with assms show ?thesis by simp
qed

theorem render_twice_same_description_witness:
  "draw_game_tree example_lib 1000 (Some 0) price_heap =
     Inr \<lparr>heap = price_heap, dot_body = new_digraph @ price_out\<rparr> \<and>
   (\<exists>s2. draw_game_tree example_lib 1000 (Some 0) price_heap = Inr s2 \<and>
      dot_body s2 = new_digraph @ price_out \<and>
      nodes (dot_body s2) = nodes (new_digraph @ price_out) \<and>
      edges (dot_body s2) = edges (new_digraph @ price_out))"
  using render_twice_same_description [OF price_draw] price_draw by simp

text \<open>
  Claim C8. \<open>validate_choices\<close> returns every value of \<^verbatim>\<open>actions\<close> unchanged and raises
  nothing, a list with exactly one action included, so constructing a \<^verbatim>\<open>GameNode\<close>
  succeeds for every action list and stores it as given.
\<close>
theorem validate_choices_never_rejects:
  "validate_choices v = Inr v \<and>
   GameNode_init i player terminal v pay =
     Inr \<lparr>id_str = i, current_player_name = player, is_terminal = terminal,
          actions = v, payoff = pay\<rparr>"
  by (simp add: GameNode_init_def validate_choices_def split: option.splits)

text \<open>
  Claim C9. A call of \<open>draw_game_tree\<close> that returns leaves the store of node objects as
  it was: every field of every node, action and payoff is unchanged.
\<close>
theorem render_leaves_tree_unchanged:
  assumes "draw_game_tree L n root_node h = Inr s'"
  shows "heap s' = h"
proof (cases root_node)
  case None
  with assms show ?thesis by (auto simp: draw_game_tree_def)
next
  case (Some r)
  with assms show ?thesis using draw_game_tree_returns by fastforce
qed

theorem render_leaves_tree_unchanged_witness:
  "draw_game_tree example_lib 1000 (Some 0) price_heap =
     Inr \<lparr>heap = price_heap, dot_body = new_digraph @ price_out\<rparr> \<and>
   heap \<lparr>heap = price_heap, dot_body = new_digraph @ price_out\<rparr> = price_heap"
  using render_leaves_tree_unchanged [OF price_draw] price_draw by simp

text \<open>
  Claim C10. For a tree without a reference back to an ancestor, of at most \<open>k\<close> levels,
  and \<open>n \<ge> k\<close> nested calls allowed, \<open>draw_game_tree\<close> returns a graph in which the
  record of a node comes before every edge into or out of it, so that both ends of every
  edge are identifiers of emitted node records.
\<close>
theorem edges_closed_over_nodes:
  assumes "tree_depth_le h k r" and "k \<le> n"
  shows "\<exists>s'. draw_game_tree L n (Some r) h = Inr s' \<and>
           declared_before_use {} (dot_body s') \<and>
           (\<forall>(t, u, l) \<in> set (edges (dot_body s')).
              t \<in> fst ` set (nodes (dot_body s')) \<and> u \<in> fst ` set (nodes (dot_body s')))"
proof -
  let ?g = "new_digraph @ emitted L h n r None []"
  from assms have run: "draw_game_tree L n (Some r) h = Inr \<lparr>heap = h, dot_body = ?g\<rparr>"
    by (rule draw_game_tree_tree)
  have "declared_before_use {} (emitted L h n r None [])"
    by (rule emitted_declared) simp
  then have dbu: "declared_before_use {} ?g"
    by (simp add: new_digraph_def)
  from declared_before_use_edges [OF dbu]
  have "\<forall>(t, u, l) \<in> set (edges ?g). t \<in> fst ` set (nodes ?g) \<and> u \<in> fst ` set (nodes ?g)"
    by auto
  with run dbu show ?thesis by simp
qed

theorem edges_closed_over_nodes_witness:
  "tree_depth_le chance_heap 2 0 \<and> (2::nat) \<le> 1000 \<and>
   (\<exists>s'. draw_game_tree example_lib 1000 (Some 0) chance_heap = Inr s' \<and>
      declared_before_use {} (dot_body s') \<and>
      (\<forall>(t, u, l) \<in> set (edges (dot_body s')).
         t \<in> fst ` set (nodes (dot_body s')) \<and> u \<in> fst ` set (nodes (dot_body s'))))"
proof -
  have le: "(2::nat) \<le> 1000" by simp
  from edges_closed_over_nodes [OF chance_depth le, of example_lib] chance_depth le
  show ?thesis by blast
qed

end
